theory Spec2Isabelle
  imports Complex_Main "HOL-Library.Word" "HOL-Library.Log_Nat"
begin

unbundle bit_operations_syntax

section \<open>Python floats\<close>

text \<open>
  The player computes every time value with Python floats (IEEE 754 binary64, round to
  nearest, ties to even). A finite float is modelled by the rational number it denotes;
  the sign of zero, which no comparison of the program can see, is dropped.
\<close>

datatype pyfloat = Fin rat | PInf | NInf | NaN

text \<open>
  \<open>ilog2 x\<close> is the binary exponent of a positive rational:
  \<open>2^e \<le> x < 2^(e+1)\<close>.
\<close>

definition ilog2 :: "rat \<Rightarrow> int" where
  "ilog2 x =
     (if 1 \<le> x then int (floorlog 2 (nat \<lfloor>x\<rfloor>)) - 1
      else - int (floorlog 2 (nat (\<lceil>1 / x\<rceil> - 1))))"

definition round_half_even :: "rat \<Rightarrow> int" where
  "round_half_even x =
     (let f = \<lfloor>x\<rfloor>; d = x - of_int f
      in if d < 1 / 2 then f
         else if 1 / 2 < d then f + 1
         else if even f then f else f + 1)"

text \<open>
  Rounding of an exact value to the binary64 grid with the exponent unbounded above:
  53 significant bits, the spacing never below \<open>2^-1074\<close> (subnormals).
\<close>

definition rnd :: "rat \<Rightarrow> rat" where
  "rnd x =
     (if x = 0 then 0
      else let e = max (ilog2 \<bar>x\<bar>) (- 1022); u = 2 powi (e - 52)
           in of_int (round_half_even (x / u)) * u)"

definition huge :: rat where
  "huge = 179769313486231590772930519078902473361797697894230657273430081157732675805500963132708477322407536021120113879871393357658789768814416622492847430639474124377767893424865485276302219601246094119453082952085005768838150682342462881473913110540827237163350510684586298239947245938479716304835356329624224137216"

text \<open>The result of a float operation whose exact value is \<open>x\<close>: overflow gives an infinity.\<close>

definition to_float :: "rat \<Rightarrow> pyfloat" where
  "to_float x =
     (let r = rnd x
      in if huge \<le> r then PInf else if r \<le> - huge then NInf else Fin r)"

fun fadd :: "pyfloat \<Rightarrow> pyfloat \<Rightarrow> pyfloat" where
  "fadd (Fin a) (Fin b) = to_float (a + b)"
| "fadd NaN _ = NaN"
| "fadd _ NaN = NaN"
| "fadd PInf NInf = NaN"
| "fadd NInf PInf = NaN"
| "fadd PInf _ = PInf"
| "fadd NInf _ = NInf"
| "fadd _ PInf = PInf"
| "fadd _ NInf = NInf"

fun fneg :: "pyfloat \<Rightarrow> pyfloat" where
  "fneg (Fin a) = Fin (- a)"
| "fneg PInf = NInf"
| "fneg NInf = PInf"
| "fneg NaN = NaN"

definition fsub :: "pyfloat \<Rightarrow> pyfloat \<Rightarrow> pyfloat" where
  "fsub x y = fadd x (fneg y)"

fun fmul :: "pyfloat \<Rightarrow> pyfloat \<Rightarrow> pyfloat" where
  "fmul (Fin a) (Fin b) = to_float (a * b)"
| "fmul NaN _ = NaN"
| "fmul _ NaN = NaN"
| "fmul (Fin a) PInf = (if a = 0 then NaN else if 0 < a then PInf else NInf)"
| "fmul (Fin a) NInf = (if a = 0 then NaN else if 0 < a then NInf else PInf)"
| "fmul PInf (Fin b) = (if b = 0 then NaN else if 0 < b then PInf else NInf)"
| "fmul NInf (Fin b) = (if b = 0 then NaN else if 0 < b then NInf else PInf)"
| "fmul PInf PInf = PInf"
| "fmul NInf NInf = PInf"
| "fmul PInf NInf = NInf"
| "fmul NInf PInf = NInf"

text \<open>Comparison of floats: every comparison with a NaN is false.\<close>

fun fless :: "pyfloat \<Rightarrow> pyfloat \<Rightarrow> bool" where
  "fless (Fin a) (Fin b) = (a < b)"
| "fless NaN _ = False"
| "fless _ NaN = False"
| "fless NInf NInf = False"
| "fless NInf _ = True"
| "fless PInf _ = False"
| "fless (Fin a) PInf = True"
| "fless (Fin a) NInf = False"

fun fle :: "pyfloat \<Rightarrow> pyfloat \<Rightarrow> bool" where
  "fle (Fin a) (Fin b) = (a \<le> b)"
| "fle NaN _ = False"
| "fle _ NaN = False"
| "fle NInf _ = True"
| "fle PInf PInf = True"
| "fle PInf _ = False"
| "fle (Fin a) PInf = True"
| "fle (Fin a) NInf = False"

text \<open>
  Python's two-argument \<open>min\<close> and \<open>max\<close> keep the first argument unless the
  second is strictly smaller (larger).
\<close>

definition py_min :: "pyfloat \<Rightarrow> pyfloat \<Rightarrow> pyfloat" where
  "py_min a b = (if fless b a then b else a)"

definition py_max :: "pyfloat \<Rightarrow> pyfloat \<Rightarrow> pyfloat" where
  "py_max a b = (if fless a b then b else a)"

section \<open>Python exceptions and conversions\<close>

text \<open>
  \<open>FileError\<close> stands for whatever exception \<open>mido.MidiFile(path)\<close> raises on an
  unreadable or malformed file; the others are raised by the arithmetic of the player.
\<close>

datatype py_error = FileError | ZeroDivisionError | OverflowError | ValueError

text \<open>An \<open>int\<close> operand of a float operation is converted first; too large an int raises.\<close>

definition float_of_int :: "int \<Rightarrow> py_error + pyfloat" where
  "float_of_int n =
     (case to_float (of_int n) of Fin r \<Rightarrow> Inr (Fin r) | _ \<Rightarrow> Inl OverflowError)"

text \<open>\<open>a / b\<close> on two ints: the correctly rounded quotient.\<close>

definition true_div :: "int \<Rightarrow> int \<Rightarrow> py_error + pyfloat" where
  "true_div a b =
     (if b = 0 then Inl ZeroDivisionError
      else case to_float (of_int a / of_int b) of
             Fin r \<Rightarrow> Inr (Fin r)
           | _ \<Rightarrow> Inl OverflowError)"

text \<open>\<open>x / 1_000_000.0\<close> on a float.\<close>

fun fdiv_million :: "pyfloat \<Rightarrow> pyfloat" where
  "fdiv_million (Fin a) = to_float (a / 1000000)"
| "fdiv_million PInf = PInf"
| "fdiv_million NInf = NInf"
| "fdiv_million NaN = NaN"

text \<open>\<open>int(x)\<close> on a float truncates towards zero.\<close>

fun py_int :: "pyfloat \<Rightarrow> py_error + int" where
  "py_int (Fin a) = Inr (if 0 \<le> a then \<lfloor>a\<rfloor> else \<lceil>a\<rceil>)"
| "py_int PInf = Inl OverflowError"
| "py_int NInf = Inl OverflowError"
| "py_int NaN = Inl ValueError"

section \<open>The parsed MIDI file\<close>

text \<open>
  What the player reads of a \<open>mido\<close> message: a meta message is a tempo change (with
  its tempo, which \<open>mido\<close> keeps in \<open>0..0xffffff\<close>) or any other meta message; a
  non-meta message has its raw bytes, or no \<open>bytes\<close> attribute at all. A track is the
  list of its messages, each with its delta time in ticks (\<open>msg.time\<close>).
\<close>

type_synonym byte = "8 word"

datatype midi_msg = SetTempo nat | OtherMeta | Voice "byte list" | NoBytes

type_synonym track = "(int \<times> midi_msg) list"

record midi_file =
  ticks_per_beat :: int
  tracks :: "track list"

section \<open>\<open>MIDIPlayer._flatten\<close>\<close>

fun abs_ticks :: "int \<Rightarrow> track \<Rightarrow> (int \<times> midi_msg) list" where
  "abs_ticks abs_tick [] = []"
| "abs_ticks abs_tick ((d, msg) # rest) = (abs_tick + d, msg) # abs_ticks (abs_tick + d) rest"

text \<open>Steps 1 and 2: every track from tick 0, appended in track order, then a stable sort.\<close>

definition merged :: "track list \<Rightarrow> (int \<times> midi_msg) list" where
  "merged trks = sort_key fst (concat (map (abs_ticks 0) trks))"

record flat_state =
  tempo :: nat
  last_tick :: int
  elapsed_us :: pyfloat
  result :: "(pyfloat \<times> byte list) list"

text \<open>One iteration of the loop of step 3.\<close>

definition flat_step :: "int \<Rightarrow> flat_state \<Rightarrow> int \<times> midi_msg \<Rightarrow> py_error + flat_state" where
  "flat_step tpb s e =
     (case true_div (int (tempo s)) tpb of
        Inl err \<Rightarrow> Inl err
      | Inr q \<Rightarrow>
         (case float_of_int (fst e - last_tick s) of
            Inl err \<Rightarrow> Inl err
          | Inr tick_delta \<Rightarrow>
             (let s1 = s\<lparr>elapsed_us := fadd (elapsed_us s) (fmul tick_delta q),
                          last_tick := fst e\<rparr>
              in case snd e of
                   SetTempo n \<Rightarrow> Inr (s1\<lparr>tempo := n\<rparr>)
                 | OtherMeta \<Rightarrow> Inr s1
                 | NoBytes \<Rightarrow> Inr s1
                 | Voice raw \<Rightarrow>
                     if raw = [] then Inr s1
                     else Inr (s1\<lparr>result :=
                            result s1 @ [(fdiv_million (elapsed_us s1), raw)]\<rparr>))))"

fun flat_loop :: "int \<Rightarrow> flat_state \<Rightarrow> (int \<times> midi_msg) list \<Rightarrow> py_error + flat_state" where
  "flat_loop tpb s [] = Inr s"
| "flat_loop tpb s (e # es) =
     (case flat_step tpb s e of Inl err \<Rightarrow> Inl err | Inr s' \<Rightarrow> flat_loop tpb s' es)"

definition flat_init :: flat_state where
  "flat_init = \<lparr>tempo = 500000, last_tick = 0, elapsed_us = Fin 0, result = []\<rparr>"

definition flatten :: "midi_file \<Rightarrow> py_error + (pyfloat \<times> byte list) list" where
  "flatten mid =
     (case flat_loop (ticks_per_beat mid) flat_init (merged (tracks mid)) of
        Inl err \<Rightarrow> Inl err
      | Inr s \<Rightarrow> Inr (result s))"


section \<open>\<open>MIDISerial\<close> and the state of \<open>MIDIPlayer\<close>\<close>

text \<open>
  What the player does to the outside: a call of \<open>MIDISerial.send\<close> with its bytes, a call
  of one of the two callbacks, the start of a playback thread.
\<close>

datatype effect =
    Send "byte list"
  | OnPosition pyfloat pyfloat
  | OnFinished
  | ThreadStart

definition all_sound_off :: "effect list" where
  "all_sound_off = map (\<lambda>ch. Send [0xB0 OR of_nat ch, 120, 0]) [0..<16]"

datatype player_state = STOPPED | PLAYING | PAUSED

text \<open>
  The fields of \<open>MIDIPlayer\<close>; the two events are the booleans they hold, a callback slot
  is the boolean \<open>is set\<close>, and \<open>effects\<close> is the log of what was done so far.
\<close>

record player =
  state :: player_state
  stop_flag :: bool
  pause_evt :: bool
  mid :: "midi_file option"
  messages :: "(pyfloat \<times> byte list) list"
  duration :: pyfloat
  pos :: pyfloat
  seek_to :: "pyfloat option"
  volume :: pyfloat
  on_position :: bool
  on_finished :: bool
  effects :: "effect list"

definition init_player :: player where
  "init_player =
     \<lparr>state = STOPPED, stop_flag = False, pause_evt = True, mid = None, messages = [],
      duration = Fin 0, pos = Fin 0, seek_to = None, volume = Fin 1,
      on_position = False, on_finished = False, effects = []\<rparr>"

section \<open>The public API of \<open>MIDIPlayer\<close>\<close>

text \<open>
  \<open>load\<close> gets the outcome of \<open>mido.MidiFile(path)\<close>: the parsed file, or the exception
  the parser raised. It returns what the call returns or raises, and the player after it.
\<close>

definition load :: "player \<Rightarrow> py_error + midi_file \<Rightarrow> (py_error + pyfloat) \<times> player" where
  "load p src =
     (case src of
        Inl err \<Rightarrow> (Inl err, p)
      | Inr m \<Rightarrow>
         (case flatten m of
            Inl err \<Rightarrow> (Inl err, p)
          | Inr msgs \<Rightarrow>
             (let d = (if msgs = [] then Fin 0 else fst (last msgs))
              in (Inr d, p\<lparr>mid := Some m, messages := msgs, duration := d, pos := Fin 0\<rparr>))))"

definition play :: "player \<Rightarrow> player" where
  "play p =
     (if state p = PLAYING then p
      else if state p = PAUSED then p\<lparr>state := PLAYING, pause_evt := True\<rparr>
      else p\<lparr>state := PLAYING, stop_flag := False, pause_evt := True,
             effects := effects p @ [ThreadStart]\<rparr>)"

definition pause :: "player \<Rightarrow> player" where
  "pause p =
     (if state p = PLAYING
      then p\<lparr>state := PAUSED, pause_evt := False, effects := effects p @ all_sound_off\<rparr>
      else p)"

text \<open>
  \<open>stop\<close> sets the two events first, then the state and the position under the lock, then
  sends the silence command.
\<close>

definition stop_signal :: "player \<Rightarrow> player" where
  "stop_signal p = p\<lparr>stop_flag := True, pause_evt := True\<rparr>"

definition stop_locked :: "player \<Rightarrow> player" where
  "stop_locked p = p\<lparr>state := STOPPED, pos := Fin 0\<rparr>"

definition stop :: "player \<Rightarrow> player" where
  "stop p =
     (let p1 = stop_locked (stop_signal p) in p1\<lparr>effects := effects p1 @ all_sound_off\<rparr>)"

definition seek :: "player \<Rightarrow> pyfloat \<Rightarrow> player" where
  "seek p seconds = p\<lparr>seek_to := Some (py_max (Fin 0) (py_min seconds (duration p)))\<rparr>"

definition rewind :: "player \<Rightarrow> player" where
  "rewind p = seek p (Fin 0)"

definition set_volume :: "player \<Rightarrow> pyfloat \<Rightarrow> player" where
  "set_volume p v = p\<lparr>volume := py_max (Fin 0) (py_min (Fin 1) v)\<rparr>"

definition skip :: "player \<Rightarrow> player" where
  "skip p = p\<lparr>stop_flag := True, pause_evt := True\<rparr>"

section \<open>\<open>_find_index\<close> and \<open>_apply_volume\<close>\<close>

fun find_index :: "(pyfloat \<times> byte list) list \<Rightarrow> pyfloat \<Rightarrow> nat" where
  "find_index [] p = 0"
| "find_index ((t, raw) # ms) p = (if fle p t then 0 else Suc (find_index ms p))"

text \<open>
  \<open>raw[2] * self._volume\<close> converts the byte to a float, which is exact, and multiplies;
  \<open>int\<close> truncates the product.
\<close>

definition apply_volume :: "pyfloat \<Rightarrow> byte list \<Rightarrow> py_error + byte list" where
  "apply_volume vol raw =
     (if 3 \<le> length raw \<and> (raw ! 0) AND 0xF0 = 0xB0 \<and> raw ! 1 = 7
      then case py_int (fmul (Fin (of_nat (unat (raw ! 2)))) vol) of
             Inl err \<Rightarrow> Inl err
           | Inr scaled \<Rightarrow> Inr [raw ! 0, raw ! 1, of_int (max 0 (min 127 scaled))]
      else Inr raw)"

section \<open>\<open>MIDIPlayer._run\<close>, the playback thread\<close>

text \<open>
  The thread is a machine over its local variables. One step runs from one point where the
  thread looks at the shared fields to the next one, and reads the clock
  (\<open>time.perf_counter()\<close>) at most once: the reading is the argument \<open>now\<close> of the step.
  The points are: the start, the head of the \<open>for\<close> loop, the head of the \<open>while\<close> loop,
  the statement after the \<open>while\<close> loop, and the statements after the \<open>for\<close> loop.
\<close>

datatype pc = Start | ForHead | WaitLoop | AfterWait | Epilogue | Done | Crashed py_error

text \<open>
  \<open>r_next\<close> is the value that the iterator of \<open>range(idx, len(messages))\<close> yields next:
  an assignment to \<open>i\<close> in the body of the loop does not change it.
\<close>

record run_local =
  r_pc :: pc
  r_messages :: "(pyfloat \<times> byte list) list"
  r_pos :: pyfloat
  r_idx :: nat
  r_t0 :: pyfloat
  r_next :: nat
  r_i :: nat
  r_msg_time :: pyfloat
  r_raw :: "byte list"

definition new_thread :: run_local where
  "new_thread =
     \<lparr>r_pc = Start, r_messages = [], r_pos = Fin 0, r_idx = 0, r_t0 = Fin 0, r_next = 0,
      r_i = 0, r_msg_time = Fin 0, r_raw = []\<rparr>"

text \<open>The seek check: both occurrences take the pending target and clear it.\<close>

definition take_seek :: "pyfloat \<Rightarrow> pyfloat \<Rightarrow> player \<times> run_local \<Rightarrow> player \<times> run_local" where
  "take_seek now sk c =
     (case c of (p, l) \<Rightarrow>
        (p\<lparr>effects := effects p @ all_sound_off\<rparr>,
         l\<lparr>r_pos := sk, r_idx := find_index (r_messages l) sk,
           r_i := find_index (r_messages l) sk, r_t0 := fsub now sk\<rparr>))"

definition run_step :: "pyfloat \<Rightarrow> player \<times> run_local \<Rightarrow> player \<times> run_local" where
  "run_step now c =
     (case c of (p, l) \<Rightarrow>
       (case r_pc l of
          Start \<Rightarrow>
            (p, l\<lparr>r_messages := messages p, r_pos := pos p,
                  r_idx := find_index (messages p) (pos p),
                  r_t0 := fsub now (pos p),
                  r_next := find_index (messages p) (pos p),
                  r_pc := ForHead\<rparr>)
        | ForHead \<Rightarrow>
            if length (r_messages l) \<le> r_next l then (p, l\<lparr>r_pc := Epilogue\<rparr>)
            else
              (let l1 = l\<lparr>r_i := r_next l, r_next := Suc (r_next l)\<rparr>
               in if stop_flag p then (p, l1\<lparr>r_pc := Epilogue\<rparr>)
                  else
                    (case seek_to p of
                       None \<Rightarrow>
                         (p, l1\<lparr>r_msg_time := fst (r_messages l1 ! r_i l1),
                                r_raw := snd (r_messages l1 ! r_i l1),
                                r_pc := WaitLoop\<rparr>)
                     | Some sk \<Rightarrow>
                         (case take_seek now sk (p\<lparr>seek_to := None\<rparr>, l1) of (p2, l2) \<Rightarrow>
                            if length (r_messages l2) \<le> r_i l2
                            then (p2, l2\<lparr>r_pc := Epilogue\<rparr>)
                            else (p2, l2\<lparr>r_msg_time := fst (r_messages l2 ! r_i l2),
                                       r_raw := snd (r_messages l2 ! r_i l2),
                                       r_pc := WaitLoop\<rparr>))))
        | WaitLoop \<Rightarrow>
            if stop_flag p then (p, l\<lparr>r_pc := AfterWait\<rparr>)
            else if \<not> pause_evt p then (p, l)
            else
              (case seek_to p of
                 Some sk \<Rightarrow>
                   (case take_seek now sk (p\<lparr>seek_to := None\<rparr>, l) of (p2, l2) \<Rightarrow>
                      (p2, l2\<lparr>r_pc := AfterWait\<rparr>))
               | None \<Rightarrow>
                   (let delta = fsub (r_msg_time l) (fsub now (r_t0 l))
                    in if fle delta (Fin 0) then (p, l\<lparr>r_pc := AfterWait\<rparr>)
                       else if delta = NaN then (p, l\<lparr>r_pc := Crashed ValueError\<rparr>)
                       else (p, l)))
        | AfterWait \<Rightarrow>
            if stop_flag p then (p\<lparr>pos := fsub now (r_t0 l)\<rparr>, l\<lparr>r_pc := Epilogue\<rparr>)
            else
              (case apply_volume (volume p) (r_raw l) of
                 Inl err \<Rightarrow> (p, l\<lparr>r_pc := Crashed err\<rparr>)
               | Inr data \<Rightarrow>
                   (p\<lparr>pos := r_msg_time l,
                      effects := effects p @ [Send data] @
                        (if on_position p then [OnPosition (r_msg_time l) (duration p)]
                         else [])\<rparr>,
                    l\<lparr>r_pc := ForHead\<rparr>))
        | Epilogue \<Rightarrow>
            (p\<lparr>state := STOPPED, pos := Fin 0,
               effects := effects p @ all_sound_off @
                 (if state p = PLAYING \<and> on_finished p then [OnFinished] else [])\<rparr>,
             l\<lparr>r_pc := Done\<rparr>)
        | Done \<Rightarrow> (p, l)
        | Crashed err \<Rightarrow> (p, l)))"

text \<open>Steps of the thread alone, one clock reading each.\<close>

fun run_steps :: "pyfloat list \<Rightarrow> player \<times> run_local \<Rightarrow> player \<times> run_local" where
  "run_steps [] c = c"
| "run_steps (now # nows) c = run_steps nows (run_step now c)"

text \<open>
  The calls of the control surface interleaved with the steps of the playback threads:
  \<open>Run k now\<close> is a step of the \<open>k\<close>-th thread started so far.
\<close>

datatype action =
    Load "py_error + midi_file"
  | Play
  | Pause
  | Stop
  | Seek pyfloat
  | Rewind
  | SetVolume pyfloat
  | Skip
  | Run nat pyfloat

fun exec1 :: "action \<Rightarrow> player \<times> run_local list \<Rightarrow> player \<times> run_local list" where
  "exec1 (Load src) (p, ts) = (snd (load p src), ts)"
| "exec1 Play (p, ts) = (play p, if state p = STOPPED then ts @ [new_thread] else ts)"
| "exec1 Pause (p, ts) = (pause p, ts)"
| "exec1 Stop (p, ts) = (stop p, ts)"
| "exec1 (Seek t) (p, ts) = (seek p t, ts)"
| "exec1 Rewind (p, ts) = (rewind p, ts)"
| "exec1 (SetVolume v) (p, ts) = (set_volume p v, ts)"
| "exec1 Skip (p, ts) = (skip p, ts)"
| "exec1 (Run k now) (p, ts) =
     (if k < length ts
      then case run_step now (p, ts ! k) of (p', l') \<Rightarrow> (p', ts[k := l'])
      else (p, ts))"

fun exec :: "action list \<Rightarrow> player \<times> run_local list \<Rightarrow> player \<times> run_local list" where
  "exec [] c = c"
| "exec (a # as) c = exec as (exec1 a c)"

text \<open>How often \<open>on_finished\<close> was called so far.\<close>

definition finished_calls :: "player \<Rightarrow> nat" where
  "finished_calls p = length (filter (\<lambda>e. e = OnFinished) (effects p))"

section \<open>Notions used in the proofs, and example inputs\<close>

text \<open>The exponent that \<open>rnd\<close> uses for a value.\<close>

definition expo :: "rat \<Rightarrow> int" where
  "expo x = max (ilog2 \<bar>x\<bar>) (- 1022)"



text \<open>
  One track at 480 ticks per beat: a tempo change to 1 000 000 at tick 480, a note-on at
  tick 960. And two tracks with a tie at tick 0.
\<close>

definition tempo_example :: midi_file where
  "tempo_example =
     \<lparr>ticks_per_beat = 480,
      tracks = [[(480, SetTempo 1000000), (480, Voice [0x90, 60, 64])]]\<rparr>"

definition two_tracks_example :: midi_file where
  "two_tracks_example =
     \<lparr>ticks_per_beat = 500000,
      tracks = [[(0, Voice [0x90, 60, 64]), (1000000, Voice [0x80, 60, 0])],
                [(0, Voice [0x91, 62, 64])]]\<rparr>"

text \<open>A file whose ticks-per-beat is 0, and one with four notes at 0, 1, 2 and 3 seconds.\<close>

definition zero_division_example :: midi_file where
  "zero_division_example = \<lparr>ticks_per_beat = 0, tracks = [[(0, Voice [0x90, 60, 64])]]\<rparr>"

definition four_notes_example :: midi_file where
  "four_notes_example =
     \<lparr>ticks_per_beat = 500000,
      tracks = [[(0, Voice [0x90, 60, 64]), (1000000, Voice [0x90, 61, 64]),
                 (1000000, Voice [0x90, 62, 64]), (1000000, Voice [0x90, 63, 64])]]\<rparr>"

text \<open>
  A thread that has not ended, and a bound on the steps it takes to end once the stop
  flag is set.
\<close>

fun running :: "pc \<Rightarrow> bool" where
  "running Done = False"
| "running (Crashed err) = False"
| "running _ = True"

fun steps_to_exit :: "pc \<Rightarrow> nat" where
  "steps_to_exit Start = 3"
| "steps_to_exit ForHead = 2"
| "steps_to_exit WaitLoop = 3"
| "steps_to_exit AfterWait = 2"
| "steps_to_exit Epilogue = 1"
| "steps_to_exit _ = 0"

text \<open>
  Three runs of the player. In each the file is loaded, \<open>play()\<close> starts the thread and
  four steps of the thread send the first event; then comes a \<open>load\<close> of another file, a
  \<open>skip()\<close>, or a \<open>seek(2.5)\<close>, and more steps of the thread.
\<close>

definition load_trace :: "action list" where
  "load_trace =
     [Load (Inr two_tracks_example), Play,
      Run 0 (Fin 10), Run 0 (Fin 10), Run 0 (Fin 10), Run 0 (Fin 10),
      Load (Inr tempo_example),
      Run 0 (Fin 10), Run 0 (Fin 10), Run 0 (Fin 10)]"


definition seek_trace :: "action list" where
  "seek_trace =
     [Load (Inr four_notes_example), Play,
      Run 0 (Fin 10), Run 0 (Fin 10), Run 0 (Fin 10), Run 0 (Fin 10),
      Seek (Fin (5 / 2)),
      Run 0 (Fin (41 / 4)), Run 0 (Fin (41 / 4)), Run 0 (Fin (43 / 4)), Run 0 (Fin (43 / 4)),
      Run 0 (Fin (43 / 4)), Run 0 (Fin (43 / 4)), Run 0 (Fin (43 / 4))]"



definition stop_play_trace :: "action list" where
  "stop_play_trace =
     [Load (Inr four_notes_example), Play,
      Run 0 (Fin 10), Run 0 (Fin 10), Run 0 (Fin 10), Run 0 (Fin 10),
      Stop, Play,
      Run 0 (Fin 11), Run 0 (Fin 11), Run 0 (Fin 11),
      Run 0 (Fin 12), Run 0 (Fin 12), Run 0 (Fin 12),
      Run 0 (Fin 13), Run 0 (Fin 13), Run 0 (Fin 13),
      Run 0 (Fin 13), Run 0 (Fin 13)]"

section \<open>Rounding to binary64\<close>

lemma p2_less_iff: "(2::rat) powi a < 2 powi b \<longleftrightarrow> a < b"
proof
  assume h: "(2::rat) powi a < 2 powi b"
  show "a < b"
  proof (rule ccontr)
    assume "\<not> a < b"
    then have "b \<le> a" by simp
    then have "(2::rat) powi b \<le> 2 powi a" by (intro power_int_increasing) auto
    with h show False by simp
  qed
next
  assume "a < b"
  then show "(2::rat) powi a < 2 powi b" by (intro power_int_strict_increasing) auto
qed

lemma p2_le_iff: "(2::rat) powi a \<le> 2 powi b \<longleftrightarrow> a \<le> b"
  using p2_less_iff[of b a] by (auto simp: not_less[symmetric])

lemma ilog2_bounds:
  assumes "0 < x"
  shows "2 powi ilog2 x \<le> x \<and> x < 2 powi (ilog2 x + 1)"
proof (cases "1 \<le> x")
  case True
  define n where "n = nat \<lfloor>x\<rfloor>"
  have n: "0 < n" "of_nat n \<le> x" "x < of_nat n + 1"
    using True by (auto simp: n_def) linarith+
  from floorlog_bounds[of n 2] n have b: "2 ^ (floorlog 2 n - 1) \<le> n" "n < 2 ^ floorlog 2 n" by auto
  have fl: "0 < floorlog 2 n" using n by (simp add: floorlog_def)
  have e: "ilog2 x = int (floorlog 2 n) - 1" using True by (simp add: ilog2_def n_def)
  have "(2::rat) powi (int (floorlog 2 n) - 1) = 2 ^ (floorlog 2 n - 1)"
    using fl by (simp add: power_int_def nat_diff_distrib')
  also have "\<dots> = of_nat (2 ^ (floorlog 2 n - 1))" by simp
  also have "\<dots> \<le> of_nat n" using b(1) of_nat_le_iff by blast
  finally have l: "2 powi ilog2 x \<le> x" using n e by simp
  have "of_nat n + 1 \<le> (of_nat (2 ^ floorlog 2 n) :: rat)" using b(2)
    by (metis Suc_leI of_nat_Suc of_nat_le_iff semiring_1_class.of_nat_simps(2) add.commute)
  then have "x < 2 ^ floorlog 2 n" using n by simp
  then have "x < 2 powi (ilog2 x + 1)" using e by simp
  with l show ?thesis by simp
next
  case False
  define y where "y = 1 / x"
  have y: "1 < y" using False assms by (simp add: y_def)
  define n where "n = nat (\<lceil>y\<rceil> - 1)"
  have c: "2 \<le> \<lceil>y\<rceil>" using y by linarith
  have n: "0 < n" "of_nat n < y" "y \<le> of_nat n + 1"
    using c by (auto simp: n_def) linarith+
  from floorlog_bounds[of n 2] n have b: "2 ^ (floorlog 2 n - 1) \<le> n" "n < 2 ^ floorlog 2 n" by auto
  have e: "ilog2 x = - int (floorlog 2 n)" using False by (simp add: ilog2_def n_def y_def)
  have "of_nat n + 1 \<le> (of_nat (2 ^ floorlog 2 n) :: rat)" using b(2)
    by (metis Suc_leI of_nat_Suc of_nat_le_iff semiring_1_class.of_nat_simps(2) add.commute)
  then have u: "y \<le> 2 ^ floorlog 2 n" using n by simp
  have "(2::rat) ^ (floorlog 2 n - 1) = of_nat (2 ^ (floorlog 2 n - 1))" by simp
  also have "\<dots> \<le> of_nat n" using b(1) of_nat_le_iff by blast
  also have "\<dots> < y" using n by simp
  finally have l: "2 ^ (floorlog 2 n - 1) < y" .
  have fl: "0 < floorlog 2 n" using n by (simp add: floorlog_def)
  have "(2::rat) powi ilog2 x = 1 / 2 ^ floorlog 2 n" using e by (simp add: power_int_minus_divide)
  also have "\<dots> \<le> 1 / y" using u y by (simp add: frac_le)
  finally have L: "2 powi ilog2 x \<le> x" using assms by (simp add: y_def)
  have "ilog2 x + 1 = - int (floorlog 2 n - 1)" using e fl by simp
  then have "(2::rat) powi (ilog2 x + 1) = 1 / 2 ^ (floorlog 2 n - 1)"
    by (simp add: power_int_minus_divide)
  moreover have "1 / y < 1 / 2 ^ (floorlog 2 n - 1)" using l by (simp add: frac_less2)
  ultimately have "x < 2 powi (ilog2 x + 1)" using assms by (simp add: y_def)
  with L show ?thesis by simp
qed

lemma ilog2_unique:
  assumes "0 < x" "2 powi e \<le> x" "x < 2 powi (e + 1)"
  shows "ilog2 x = e"
proof -
  from ilog2_bounds[OF assms(1)] have b: "2 powi ilog2 x \<le> x" "x < 2 powi (ilog2 x + 1)" by auto
  have "(2::rat) powi e < 2 powi (ilog2 x + 1)" using assms(2) b(2) by simp
  then have 1: "e < ilog2 x + 1" by (simp add: p2_less_iff)
  have "(2::rat) powi ilog2 x < 2 powi (e + 1)" using assms(3) b(1) by simp
  then have "ilog2 x < e + 1" by (simp add: p2_less_iff)
  with 1 show ?thesis by simp
qed

lemma rhe_of_int: "round_half_even (of_int n) = n"
  by (simp add: round_half_even_def)

lemma rhe_cases: "round_half_even x = \<lfloor>x\<rfloor> \<or> round_half_even x = \<lfloor>x\<rfloor> + 1"
  by (simp add: round_half_even_def Let_def)

lemma rhe_mono:
  assumes "x \<le> y"
  shows "round_half_even x \<le> round_half_even y"
proof -
  have "\<lfloor>x\<rfloor> \<le> \<lfloor>y\<rfloor>" using assms by (rule floor_mono)
  then consider "\<lfloor>x\<rfloor> < \<lfloor>y\<rfloor>" | "\<lfloor>x\<rfloor> = \<lfloor>y\<rfloor>" by linarith
  then show ?thesis
  proof cases
    case 1
    then show ?thesis using rhe_cases[of x] rhe_cases[of y] by linarith
  next
    case 2
    then show ?thesis using assms by (auto simp: round_half_even_def Let_def)
  qed
qed

lemma rhe_ge_int: "of_int n \<le> x \<Longrightarrow> n \<le> round_half_even x"
  using rhe_mono[of "of_int n" x] by (simp add: rhe_of_int)

lemma rhe_le_int: "x \<le> of_int n \<Longrightarrow> round_half_even x \<le> n"
  using rhe_mono[of x "of_int n"] by (simp add: rhe_of_int)

lemma rnd_alt: "x \<noteq> 0 \<Longrightarrow> rnd x = of_int (round_half_even (x / 2 powi (expo x - 52))) * 2 powi (expo x - 52)"
  by (simp add: rnd_def expo_def Let_def)

lemma p2_split: "(2::rat) powi (e + 1) = 2 ^ 53 * 2 powi (e - 52)"
proof -
  have "e + 1 = 53 + (e - 52)" by simp
  then have "(2::rat) powi (e + 1) = 2 powi (53 + (e - 52))" by (rule arg_cong)
  also have "\<dots> = 2 powi 53 * 2 powi (e - 52)" by (subst power_int_add) auto
  finally show ?thesis by simp
qed

lemma p2_split0: "(2::rat) powi e = 2 ^ 52 * 2 powi (e - 52)"
proof -
  have "e = 52 + (e - 52)" by simp
  then have "(2::rat) powi e = 2 powi (52 + (e - 52))" by (rule arg_cong)
  also have "\<dots> = 2 powi 52 * 2 powi (e - 52)" by (subst power_int_add) auto
  finally show ?thesis by simp
qed

lemma ilog2_le_expo: "ilog2 \<bar>x\<bar> \<le> expo x"
  by (simp add: expo_def)

lemma rnd_upper:
  assumes "0 < x"
  shows "rnd x \<le> 2 powi (expo x + 1)"
proof -
  define u :: rat where "u = 2 powi (expo x - 52)"
  have u: "0 < u" by (simp add: u_def)
  have "x < 2 powi (ilog2 x + 1)" using ilog2_bounds[OF assms] by simp
  also have "\<dots> \<le> 2 powi (expo x + 1)" using ilog2_le_expo[of x] assms by (simp add: p2_le_iff)
  also have "\<dots> = 2 ^ 53 * u" unfolding u_def by (rule p2_split)
  finally have "x / u \<le> of_int (2 ^ 53)" using u by (simp add: divide_le_eq)
  then have "round_half_even (x / u) \<le> 2 ^ 53" by (rule rhe_le_int)
  then have "(of_int (round_half_even (x / u)) :: rat) \<le> of_int (2 ^ 53)"
    using of_int_le_iff by blast
  then have "of_int (round_half_even (x / u)) * u \<le> 2 ^ 53 * u" using u by simp
  also have "\<dots> = 2 powi (expo x + 1)" unfolding u_def by (rule p2_split[symmetric])
  finally show ?thesis using assms by (simp add: rnd_alt u_def)
qed

lemma rnd_lower:
  assumes "0 < x" "- 1022 \<le> ilog2 x"
  shows "2 powi expo x \<le> rnd x"
proof -
  define u :: rat where "u = 2 powi (expo x - 52)"
  have u: "0 < u" by (simp add: u_def)
  have e: "expo x = ilog2 x" using assms by (simp add: expo_def)
  have "2 ^ 52 * u = 2 powi expo x" unfolding u_def by (rule p2_split0[symmetric])
  also have "\<dots> \<le> x" using ilog2_bounds[OF assms(1)] e by simp
  finally have "of_int (2 ^ 52) \<le> x / u" using u by (simp add: le_divide_eq)
  then have "2 ^ 52 \<le> round_half_even (x / u)" by (rule rhe_ge_int)
  then have "(of_int (2 ^ 52) :: rat) \<le> of_int (round_half_even (x / u))"
    using of_int_le_iff by blast
  then have "2 ^ 52 * u \<le> of_int (round_half_even (x / u)) * u" using u by simp
  moreover have "2 powi expo x = 2 ^ 52 * u" unfolding u_def by (rule p2_split0)
  ultimately show ?thesis using assms by (simp add: rnd_alt u_def)
qed

lemma rnd_nonneg:
  assumes "0 \<le> x"
  shows "0 \<le> rnd x"
proof (cases "x = 0")
  case True
  then show ?thesis by (simp add: rnd_def)
next
  case False
  define u :: rat where "u = 2 powi (expo x - 52)"
  have u: "0 < u" by (simp add: u_def)
  have "of_int 0 \<le> x / u" using assms u by simp
  then have "0 \<le> round_half_even (x / u)" by (rule rhe_ge_int)
  then show ?thesis using False u by (simp add: rnd_alt u_def)
qed

lemma ilog2_mono:
  assumes "0 < x" "x \<le> y"
  shows "ilog2 x \<le> ilog2 y"
proof -
  have "2 powi ilog2 x \<le> x" using ilog2_bounds[OF assms(1)] by simp
  also have "\<dots> \<le> y" by fact
  also have "\<dots> < 2 powi (ilog2 y + 1)" using ilog2_bounds[of y] assms by simp
  finally show ?thesis by (simp add: p2_less_iff)
qed

lemma rnd_mono_pos:
  assumes "0 < x" "x \<le> y"
  shows "rnd x \<le> rnd y"
proof -
  have y: "0 < y" using assms by simp
  have le: "expo x \<le> expo y" using ilog2_mono[OF assms] assms by (simp add: expo_def)
  show ?thesis
  proof (cases "expo x = expo y")
    case True
    define u :: rat where "u = 2 powi (expo x - 52)"
    have u: "0 < u" by (simp add: u_def)
    have "x / u \<le> y / u" using assms u by (simp add: divide_right_mono)
    then have "round_half_even (x / u) \<le> round_half_even (y / u)" by (rule rhe_mono)
    then have "(of_int (round_half_even (x / u)) :: rat) \<le> of_int (round_half_even (y / u))"
      by simp
    then have "of_int (round_half_even (x / u)) * u \<le> of_int (round_half_even (y / u)) * u"
      using u by simp
    then show ?thesis using assms y True by (simp add: rnd_alt u_def)
  next
    case False
    with le have lt: "expo x < expo y" by simp
    then have n: "- 1022 \<le> ilog2 y" "expo y = ilog2 y" using y by (auto simp: expo_def)
    have "rnd x \<le> 2 powi (expo x + 1)" using rnd_upper[OF assms(1)] .
    also have "\<dots> \<le> 2 powi expo y" using lt by (simp add: p2_le_iff)
    also have "\<dots> \<le> rnd y" using rnd_lower[OF y n(1)] .
    finally show ?thesis .
  qed
qed

lemma rnd_mono:
  assumes "0 \<le> x" "x \<le> y"
  shows "rnd x \<le> rnd y"
proof (cases "x = 0")
  case True
  then show ?thesis using rnd_nonneg[of y] assms by (simp add: rnd_def)
next
  case False
  then show ?thesis using rnd_mono_pos[of x y] assms by simp
qed






lemma rnd_eval:
  assumes "0 < x" "2 powi e \<le> x" "x < 2 powi (e + 1)" "- 1022 \<le> e"
  shows "rnd x = of_int (round_half_even (x / 2 powi (e - 52))) * 2 powi (e - 52)"
proof -
  have "ilog2 x = e" using assms by (intro ilog2_unique) auto
  then have "expo x = e" using assms by (simp add: expo_def)
  then show ?thesis using assms by (simp add: rnd_alt)
qed

lemma floor_rat_div_numeral:
  "\<lfloor>(numeral a :: rat) / numeral b\<rfloor> = numeral a div numeral b"
  using floor_divide_of_int_eq[of "numeral a" "numeral b", where ?'a = rat] by simp

lemmas rhe_eval = round_half_even_def Let_def floor_rat_div_numeral

lemma ceiling_rat_div_numeral:
  "\<lceil>(numeral a :: rat) / numeral b\<rceil> = - (- numeral a div numeral b)"
  using ceiling_divide_eq_div[of "numeral a" "numeral b", where ?'a = rat] by simp

lemmas fl_eval = to_float_def rnd_def ilog2_def huge_def round_half_even_def Let_def
  compute_floorlog floor_rat_div_numeral ceiling_rat_div_numeral

section \<open>Not negative floats\<close>

lemma huge_pos: "0 < huge" by (simp add: huge_def)














section \<open>Flattening\<close>








lemmas flat_eval = flatten_def merged_def flat_init_def flat_step_def true_div_def
  float_of_int_def fl_eval

lemma flat_loop_append:
  "flat_loop tpb s (xs @ ys) =
     (case flat_loop tpb s xs of Inl err \<Rightarrow> Inl err | Inr s1 \<Rightarrow> flat_loop tpb s1 ys)"
  by (induction xs arbitrary: s) (auto split: sum.splits)

lemma flat_step_result:
  "flat_step tpb s e = Inr s' \<Longrightarrow> \<exists>new. result s' = result s @ new"
  by (auto simp: flat_step_def Let_def split: sum.splits midi_msg.splits if_splits)

lemma flat_loop_result:
  "flat_loop tpb s es = Inr s' \<Longrightarrow> \<exists>new. result s' = result s @ new"
proof (induction es arbitrary: s)
  case Nil
  then show ?case by simp
next
  case (Cons e es)
  from Cons.prems obtain s1 where s1: "flat_step tpb s e = Inr s1"
    and rest: "flat_loop tpb s1 es = Inr s'"
    by (auto split: sum.splits)
  from flat_step_result[OF s1] Cons.IH[OF rest] show ?case by auto
qed



text \<open>
  C1, as amended: a tempo change takes effect only for the ticks after it. The entries
  before it give the state \<open>s1\<close> whatever the new tempo is, the gap up to the event is
  charged at the old tempo, the entries after it run at the new one, and the times
  appended before stay as they are. In the example the note-on at tick 960 gets the time
  1.5000000000000002 s, the float next above 1.5: half a second for the first 480 ticks at
  500 000 microseconds per beat and one second for the next 480 at 1 000 000.
\<close>

theorem tempo_change_not_retroactive:
  assumes "flat_loop tpb s (pre @ (t, SetTempo n) # post) = Inr s_end"
  shows "(\<exists>s1 q d new.
            flat_loop tpb s pre = Inr s1
          \<and> true_div (int (tempo s1)) tpb = Inr q
          \<and> float_of_int (t - last_tick s1) = Inr d
          \<and> flat_loop tpb
               (s1\<lparr>elapsed_us := fadd (elapsed_us s1) (fmul d q), last_tick := t, tempo := n\<rparr>)
               post = Inr s_end
          \<and> result s_end = result s1 @ new)
    \<and> flatten tempo_example =
        Inr [(Fin (3 / 2 + 1 / 2 ^ 52), [0x90, 60, 64])]"
proof -
  from assms obtain s1 where s1: "flat_loop tpb s pre = Inr s1"
    and r1: "flat_loop tpb s1 ((t, SetTempo n) # post) = Inr s_end"
    by (auto simp: flat_loop_append split: sum.splits)
  from r1 obtain s2 where s2: "flat_step tpb s1 (t, SetTempo n) = Inr s2"
    and r2: "flat_loop tpb s2 post = Inr s_end"
    by (auto split: sum.splits)
  from s2 obtain q d where q: "true_div (int (tempo s1)) tpb = Inr q"
    and d: "float_of_int (t - last_tick s1) = Inr d"
    and e: "s2 = s1\<lparr>elapsed_us := fadd (elapsed_us s1) (fmul d q), last_tick := t, tempo := n\<rparr>"
    by (auto simp: flat_step_def Let_def split: sum.splits)
  from flat_loop_result[OF r2] obtain new where "result s_end = result s2 @ new" by blast
  then have n: "result s_end = result s1 @ new" by (simp add: e)
  have ex: "flatten tempo_example = Inr [(Fin (3 / 2 + 1 / 2 ^ 52), [0x90, 60, 64])]"
    by (simp add: tempo_example_def flat_eval)
  show ?thesis using s1 q d r2 e n ex by blast
qed

theorem tempo_change_not_retroactive_witness:
  "flat_loop 480 flat_init ([] @ (480, SetTempo 1000000) # [(960, Voice [0x90, 60, 64])])
     = Inr \<lparr>tempo = 1000000, last_tick = 960,
            elapsed_us = Fin (6442450944000001 / 4294967296),
            result = [(Fin (6755399441055745 / 4503599627370496), [0x90, 60, 64])]\<rparr>
   \<and> (\<exists>s1 q d new.
            flat_loop 480 flat_init [] = Inr s1
          \<and> true_div (int (tempo s1)) 480 = Inr q
          \<and> float_of_int (480 - last_tick s1) = Inr d
          \<and> result \<lparr>tempo = 1000000, last_tick = 960,
               elapsed_us = Fin (6442450944000001 / 4294967296),
               result = [(Fin (6755399441055745 / 4503599627370496), [0x90, 60, 64 :: byte])]\<rparr>
              = result s1 @ new)"
proof -
  have h: "flat_loop 480 flat_init ([] @ (480, SetTempo 1000000) # [(960, Voice [0x90, 60, 64])])
     = Inr \<lparr>tempo = 1000000, last_tick = 960,
            elapsed_us = Fin (6442450944000001 / 4294967296),
            result = [(Fin (6755399441055745 / 4503599627370496), [0x90, 60, 64])]\<rparr>"
    by (simp add: flat_eval)
  from tempo_change_not_retroactive[OF h] h show ?thesis by blast
qed

text \<open>C1 as stated fails: the time of the note-on in the example is not 2.0 seconds.\<close>

theorem tempo_example_time:
  "flatten tempo_example =
     Inr [(Fin (6755399441055745 / 4503599627370496), [0x90, 60, 64])]
   \<and> (6755399441055745 / 4503599627370496 :: rat) \<noteq> 2"
  by (simp add: tempo_example_def flat_eval)

section \<open>The control calls\<close>

text \<open>
  C10: \<open>set_volume\<close> accepts any float, not only one in \<open>[0, 1]\<close>: the stored gain is
  the argument clamped into \<open>[0, 1]\<close> (an infinity goes to the nearer bound, a NaN to 1),
  so \<open>0 \<le> volume \<le> 1\<close> holds after every call, and no other field changes.
\<close>

theorem set_volume_clamps:
  "volume (set_volume p (Fin x)) = Fin (max 0 (min 1 x))
   \<and> volume (set_volume p PInf) = Fin 1
   \<and> volume (set_volume p NInf) = Fin 0
   \<and> volume (set_volume p NaN) = Fin 1
   \<and> fle (Fin 0) (volume (set_volume p v)) \<and> fle (volume (set_volume p v)) (Fin 1)
   \<and> set_volume p v = p\<lparr>volume := volume (set_volume p v)\<rparr>"
  by (cases v) (auto simp: set_volume_def py_max_def py_min_def max_def min_def)

theorem set_volume_clamps_witness:
  "volume (set_volume init_player (Fin 5)) = Fin 1 \<and> volume (set_volume init_player (Fin (- 3))) = Fin 0
   \<and> volume (set_volume init_player (Fin (1 / 4))) = Fin (1 / 4)"
  using set_volume_clamps[of init_player 5 "Fin 5"] set_volume_clamps[of init_player "- 3" "Fin 5"]
    set_volume_clamps[of init_player "1 / 4" "Fin 5"]
  by simp

text \<open>
  C7: \<open>seek(t)\<close> never fails. With a duration that is not negative, it records as the
  pending target a value in \<open>[0, duration]\<close>: 0 when \<open>t\<close> is negative, the duration when
  \<open>t\<close> exceeds it, \<open>t\<close> itself in between; and it changes no other field.
\<close>

theorem seek_clamps:
  assumes "fle (Fin 0) (duration p)"
  shows "seek p t = p\<lparr>seek_to := seek_to (seek p t)\<rparr>
    \<and> (\<exists>c. seek_to (seek p t) = Some c \<and> fle (Fin 0) c \<and> fle c (duration p))
    \<and> (fless t (Fin 0) \<longrightarrow> seek_to (seek p t) = Some (Fin 0))
    \<and> (fless (duration p) t \<longrightarrow> seek_to (seek p t) = Some (duration p))
    \<and> (fle (Fin 0) t \<and> fle t (duration p) \<longrightarrow> seek_to (seek p t) = Some t)"
  using assms
  by (cases t; cases "duration p") (auto simp: seek_def py_max_def py_min_def)

theorem seek_clamps_witness:
  "fle (Fin 0) (duration (init_player\<lparr>duration := Fin 3\<rparr>))
   \<and> seek_to (seek (init_player\<lparr>duration := Fin 3\<rparr>) (Fin 7)) = Some (Fin 3)
   \<and> seek_to (seek (init_player\<lparr>duration := Fin 3\<rparr>) (Fin (- 2))) = Some (Fin 0)
   \<and> seek_to (seek (init_player\<lparr>duration := Fin 3\<rparr>) (Fin 2)) = Some (Fin 2)"
  using seek_clamps[of "init_player\<lparr>duration := Fin 3\<rparr>" "Fin 7"]
    seek_clamps[of "init_player\<lparr>duration := Fin 3\<rparr>" "Fin (- 2)"]
    seek_clamps[of "init_player\<lparr>duration := Fin 3\<rparr>" "Fin 2"]
  by (simp add: init_player_def)

text \<open>
  C9: from any state, \<open>stop()\<close> leaves the player stopped at position 0, and a second
  \<open>stop()\<close> changes no field of the player (it only sends the silence command once more);
  \<open>pause()\<close> after \<open>pause()\<close>, or on a paused player, changes nothing at all.
\<close>

theorem stop_pause_idempotent:
  "state (stop p) = STOPPED \<and> pos (stop p) = Fin 0
   \<and> stop (stop p) = (stop p)\<lparr>effects := effects (stop p) @ all_sound_off\<rparr>
   \<and> state (stop (stop p)) = state (stop p) \<and> pos (stop (stop p)) = pos (stop p)
   \<and> pause (pause p) = pause p
   \<and> pause (p\<lparr>state := PAUSED\<rparr>) = p\<lparr>state := PAUSED\<rparr>"
  by (simp add: stop_def stop_signal_def stop_locked_def Let_def pause_def)

theorem stop_pause_idempotent_witness:
  "state (stop (stop (init_player\<lparr>state := PLAYING\<rparr>))) = STOPPED
   \<and> state (pause (pause (init_player\<lparr>state := PLAYING\<rparr>))) = PAUSED"
  using stop_pause_idempotent[of "init_player\<lparr>state := PLAYING\<rparr>"]
  by (simp add: pause_def)

section \<open>The volume transform\<close>

lemma rnd_256: "rnd 256 = 256"
  by (simp add: fl_eval)

lemma scaled_finite:
  assumes "0 \<le> g" "g \<le> 1" "v < 256"
  shows "fmul (Fin (of_nat v)) (Fin g) = Fin (rnd (of_nat v * g)) \<and> 0 \<le> rnd (of_nat v * g)"
proof -
  have a: "0 \<le> of_nat v * g" using assms by simp
  have "of_nat v * g \<le> of_nat v * 1" using assms by (intro mult_left_mono) auto
  also have "\<dots> \<le> 256" using assms(3) by simp
  finally have "rnd (of_nat v * g) \<le> rnd 256" using a by (intro rnd_mono) auto
  then have "rnd (of_nat v * g) < huge" by (simp add: rnd_256 huge_def)
  moreover have "0 \<le> rnd (of_nat v * g)" using a by (rule rnd_nonneg)
  ultimately show ?thesis using huge_pos by (simp add: to_float_def Let_def)
qed

text \<open>
  C5, as amended: for a gain in \<open>[0, 1]\<close> and bytes of length at least three whose status
  nibble is control change and whose controller is 7, the result is the status byte, the
  controller byte and the value \<open>int(value * gain)\<close>, the float product truncated, clamped to
  \<open>[0, 127]\<close>; for gain 0.5 and value 127 it is 63; any other byte sequence is returned
  unchanged, whatever the gain.
\<close>

theorem apply_volume_truncates:
  assumes "0 \<le> g" "g \<le> 1"
  shows "(3 \<le> length raw \<and> (raw ! 0) AND 0xF0 = 0xB0 \<and> raw ! 1 = 7 \<longrightarrow>
            apply_volume (Fin g) raw =
              Inr [raw ! 0, raw ! 1,
                   of_int (max 0 (min 127 \<lfloor>rnd (of_nat (unat (raw ! 2)) * g)\<rfloor>))])
    \<and> (\<not> (3 \<le> length raw \<and> (raw ! 0) AND 0xF0 = 0xB0 \<and> raw ! 1 = 7) \<longrightarrow>
            apply_volume vol raw = Inr raw)
    \<and> apply_volume (Fin (1 / 2)) [0xB0, 7, 127] = Inr [0xB0, 7, 63]"
proof -
  have v: "unat (raw ! 2) < 256" using unsigned_less[of "raw ! 2"] by simp
  from scaled_finite[OF assms v] have 1: "3 \<le> length raw \<and> (raw ! 0) AND 0xF0 = 0xB0 \<and> raw ! 1 = 7 \<longrightarrow>
            apply_volume (Fin g) raw =
              Inr [raw ! 0, raw ! 1,
                   of_int (max 0 (min 127 \<lfloor>rnd (of_nat (unat (raw ! 2)) * g)\<rfloor>))]"
    by (simp add: apply_volume_def)
  have 2: "\<not> (3 \<le> length raw \<and> (raw ! 0) AND 0xF0 = 0xB0 \<and> raw ! 1 = 7) \<longrightarrow>
            apply_volume vol raw = Inr raw"
    by (simp add: apply_volume_def)
  have 3: "apply_volume (Fin (1 / 2)) [0xB0, 7, 127] = Inr [0xB0, 7, 63]"
    by (simp add: apply_volume_def fl_eval)
  from 1 2 3 show ?thesis by blast
qed

theorem apply_volume_truncates_witness:
  "(0::rat) \<le> 3 / 4 \<and> (3 / 4 :: rat) \<le> 1
   \<and> apply_volume (Fin (3 / 4)) [0xB3, 7, 100] = Inr [0xB3, 7, 75]
   \<and> apply_volume (Fin (3 / 4)) [0x93, 7, 100] = Inr [0x93, 7, 100]"
proof -
  have a: "(0::rat) \<le> 3 / 4" and b: "(3 / 4 :: rat) \<le> 1" by simp_all
  have r: "rnd (100 * (3 / 4)) = 75" by (simp add: fl_eval)
  from apply_volume_truncates[OF a b, of "[0xB3, 7, 100]" NaN]
       apply_volume_truncates[OF a b, of "[0x93, 7, 100]" "Fin (3 / 4)"]
  show ?thesis using r by simp
qed

text \<open>
  C5 as stated fails: for gain 0.75 and value 5 the value byte becomes 3, and the product
  3.75 rounds to 4.
\<close>

theorem apply_volume_not_round:
  "apply_volume (Fin (3 / 4)) [0xB0, 7, 5] = Inr [0xB0, 7, 3]
   \<and> round_half_even (5 * (3 / 4)) = 4
   \<and> round (5 * (3 / 4) :: rat) = 4"
  by (simp add: apply_volume_def fl_eval round_def)

section \<open>Loading\<close>

lemmas run_eval = run_step_def take_seek_def play_def pause_def stop_def stop_signal_def
  stop_locked_def seek_def
  skip_def load_def new_thread_def init_player_def py_max_def py_min_def fsub_def
  apply_volume_def

text \<open>
  C8: when \<open>load\<close> raises, because the parser raised on an unreadable or malformed file or
  because flattening raised, the exception is the one that was raised and the player is
  left as it was: sequence, duration, position and every other field.
\<close>

theorem load_failure_atomic:
  "(\<forall>err. fst (load p src) = Inl err \<longrightarrow> snd (load p src) = p)
   \<and> load p (Inl e) = (Inl e, p)"
  by (auto simp: load_def Let_def split: sum.splits)

theorem load_failure_atomic_witness:
  "load (init_player\<lparr>duration := Fin 3\<rparr>) (Inl FileError)
     = (Inl FileError, init_player\<lparr>duration := Fin 3\<rparr>)
   \<and> fst (load (init_player\<lparr>duration := Fin 3\<rparr>) (Inr zero_division_example))
       = Inl ZeroDivisionError
   \<and> snd (load (init_player\<lparr>duration := Fin 3\<rparr>) (Inr zero_division_example))
       = init_player\<lparr>duration := Fin 3\<rparr>"
proof -
  have z: "fst (load (init_player\<lparr>duration := Fin 3\<rparr>) (Inr zero_division_example))
       = Inl ZeroDivisionError"
    by (simp add: load_def zero_division_example_def flat_eval)
  from load_failure_atomic[of "init_player\<lparr>duration := Fin 3\<rparr>" "Inr zero_division_example" FileError]
    z show ?thesis by simp
qed

text \<open>
  C4, as amended: \<open>load\<close> is legal in any state. It replaces the loaded file and sequence,
  sets the duration to the time of the last flattened event (0 for an empty sequence),
  resets the position to 0 and returns the duration; the transport state, the stop flag,
  the pause event and the sink are left as they are: it does not stop a running playback.
\<close>

theorem load_replaces_sequence:
  assumes "flatten m = Inr msgs"
  shows "load p (Inr m) =
           (Inr (if msgs = [] then Fin 0 else fst (last msgs)),
            p\<lparr>mid := Some m, messages := msgs,
              duration := (if msgs = [] then Fin 0 else fst (last msgs)), pos := Fin 0\<rparr>)
    \<and> state (snd (load p (Inr m))) = state p
    \<and> stop_flag (snd (load p (Inr m))) = stop_flag p
    \<and> pause_evt (snd (load p (Inr m))) = pause_evt p
    \<and> effects (snd (load p (Inr m))) = effects p"
  using assms by (simp add: load_def Let_def)

theorem load_replaces_sequence_witness:
  "flatten tempo_example = Inr [(Fin (3 / 2 + 1 / 2 ^ 52), [0x90, 60, 64])]
   \<and> load (init_player\<lparr>state := PAUSED, pos := Fin 7\<rparr>) (Inr tempo_example) =
       (Inr (Fin (3 / 2 + 1 / 2 ^ 52)),
        init_player\<lparr>state := PAUSED, mid := Some tempo_example,
          messages := [(Fin (3 / 2 + 1 / 2 ^ 52), [0x90, 60, 64])],
          duration := Fin (3 / 2 + 1 / 2 ^ 52), pos := Fin 0\<rparr>)"
proof -
  have f: "flatten tempo_example = Inr [(Fin (3 / 2 + 1 / 2 ^ 52), [0x90, 60, 64])]"
    by (simp add: tempo_example_def flat_eval)
  from load_replaces_sequence[OF f, of "init_player\<lparr>state := PAUSED, pos := Fin 7\<rparr>"] f
  show ?thesis by (simp add: init_player_def)
qed

text \<open>
  C4 as stated fails: after a \<open>load\<close> during playback the player is still playing, the
  stop flag is clear, and the thread goes on and sends the next event of the old sequence.
\<close>

theorem load_does_not_stop:
  "state (fst (exec load_trace (init_player, []))) = PLAYING
   \<and> \<not> stop_flag (fst (exec load_trace (init_player, [])))
   \<and> map r_pc (snd (exec load_trace (init_player, []))) = [ForHead]
   \<and> effects (fst (exec load_trace (init_player, []))) =
       [ThreadStart, Send [0x90, 60, 64], Send [0x91, 62, 64]]
   \<and> messages (fst (exec load_trace (init_player, []))) =
       [(Fin (3 / 2 + 1 / 2 ^ 52), [0x90, 60, 64])]"
  by (simp add: load_trace_def run_eval two_tracks_example_def tempo_example_def flat_eval)

section \<open>The playback thread\<close>

lemma flatten_four_notes:
  "flatten four_notes_example =
     Inr [(Fin 0, [0x90, 60, 64]), (Fin 1, [0x90, 61, 64]),
          (Fin 2, [0x90, 62, 64]), (Fin 3, [0x90, 63, 64])]"
  by (simp add: four_notes_example_def flat_eval)

lemma find_index_le: "find_index ms t \<le> length ms"
  by (induction ms t rule: find_index.induct) auto

lemma find_index_before:
  "j < find_index ms t \<Longrightarrow> \<not> fle t (fst (ms ! j))"
proof (induction ms t arbitrary: j rule: find_index.induct)
  case (1 p)
  then show ?case by simp
next
  case (2 t raw ms p)
  then show ?case by (cases j) (auto split: if_splits)
qed

lemma find_index_at:
  "find_index ms t < length ms \<Longrightarrow> fle t (fst (ms ! find_index ms t))"
  by (induction ms t rule: find_index.induct) auto

lemma no_finished_in_silence: "filter (\<lambda>e. e = OnFinished) all_sound_off = []"
  by (simp add: all_sound_off_def filter_empty_conv)

lemma finished_calls_append:
  "finished_calls (p\<lparr>effects := effects p @ es\<rparr>) =
     finished_calls p + length (filter (\<lambda>e. e = OnFinished) es)"
  by (simp add: finished_calls_def)

lemma run_step_Done: "r_pc l = Done \<Longrightarrow> run_step now (p, l) = (p, l)"
  by (simp add: run_step_def)

lemma run_steps_Done: "r_pc l = Done \<Longrightarrow> run_steps ns (p, l) = (p, l)"
  by (induction ns) (simp_all add: run_step_Done)

lemma run_step_Epilogue:
  "r_pc l = Epilogue \<Longrightarrow>
     run_step now (p, l) =
       (p\<lparr>state := STOPPED, pos := Fin 0,
          effects := effects p @ all_sound_off @
            (if state p = PLAYING \<and> on_finished p then [OnFinished] else [])\<rparr>,
        l\<lparr>r_pc := Done\<rparr>)"
  by (simp add: run_step_def)

lemma epilogue_count:
  assumes "r_pc l = Epilogue"
  shows "finished_calls (fst (run_step now (p, l))) =
           finished_calls p + (if state p = PLAYING \<and> on_finished p then 1 else 0)
         \<and> r_pc (snd (run_step now (p, l))) = Done
         \<and> state (fst (run_step now (p, l))) = STOPPED"
  using assms by (simp add: run_step_Epilogue finished_calls_def no_finished_in_silence)

lemma not_playing_step:
  assumes "state p \<noteq> PLAYING"
  shows "finished_calls (fst (run_step now (p, l))) = finished_calls p
         \<and> state (fst (run_step now (p, l))) \<noteq> PLAYING"
proof (cases "r_pc l")
  case Epilogue
  then show ?thesis using assms
    by (simp add: run_step_Epilogue finished_calls_def no_finished_in_silence)
next
  case ForHead
  then show ?thesis using assms
    by (auto simp: run_step_def take_seek_def Let_def finished_calls_def no_finished_in_silence
        split: option.splits)
next
  case WaitLoop
  then show ?thesis using assms
    by (auto simp: run_step_def take_seek_def Let_def finished_calls_def no_finished_in_silence
        split: option.splits)
next
  case AfterWait
  then show ?thesis using assms
    by (auto simp: run_step_def Let_def finished_calls_def split: sum.splits)
qed (use assms in \<open>auto simp: run_step_def\<close>)

lemma not_playing_steps:
  "state p \<noteq> PLAYING \<Longrightarrow> finished_calls (fst (run_steps ns (p, l))) = finished_calls p"
proof (induction ns arbitrary: p l)
  case Nil
  then show ?case by simp
next
  case (Cons n ns)
  obtain p' l' where s: "run_step n (p, l) = (p', l')" by (cases "run_step n (p, l)")
  from not_playing_step[OF Cons.prems, of n l] s
  have "finished_calls p' = finished_calls p" "state p' \<noteq> PLAYING" by auto
  then show ?case using Cons.IH[of p' l'] s by simp
qed

lemma stopping_step:
  assumes "stop_flag p" "running (r_pc l)" "r_pc l \<noteq> Epilogue"
  shows "stop_flag (fst (run_step now (p, l)))
    \<and> state (fst (run_step now (p, l))) = state p
    \<and> on_finished (fst (run_step now (p, l))) = on_finished p
    \<and> effects (fst (run_step now (p, l))) = effects p
    \<and> running (r_pc (snd (run_step now (p, l))))
    \<and> steps_to_exit (r_pc (snd (run_step now (p, l)))) < steps_to_exit (r_pc l)"
  using assms by (cases "r_pc l") (auto simp: run_step_def Let_def)

lemma stopping_steps:
  assumes "stop_flag p" "running (r_pc l)" "steps_to_exit (r_pc l) \<le> length ns"
  shows "r_pc (snd (run_steps ns (p, l))) = Done
    \<and> finished_calls (fst (run_steps ns (p, l))) =
        finished_calls p + (if state p = PLAYING \<and> on_finished p then 1 else 0)"
  using assms
proof (induction ns arbitrary: p l)
  case Nil
  then show ?case by (cases "r_pc l") auto
next
  case (Cons n ns)
  obtain p' l' where s: "run_step n (p, l) = (p', l')" by (cases "run_step n (p, l)")
  show ?case
  proof (cases "r_pc l = Epilogue")
    case True
    from epilogue_count[OF True, of n p] s
    have "finished_calls p' = finished_calls p + (if state p = PLAYING \<and> on_finished p then 1 else 0)"
      "r_pc l' = Done" by auto
    then show ?thesis using s by (simp add: run_steps_Done)
  next
    case False
    from stopping_step[OF Cons.prems(1,2) False, of n] s
    have f: "stop_flag p'" "state p' = state p" "on_finished p' = on_finished p"
      "effects p' = effects p" "running (r_pc l')" "steps_to_exit (r_pc l') < steps_to_exit (r_pc l)"
      by auto
    then have "steps_to_exit (r_pc l') \<le> length ns" using Cons.prems(3) by simp
    from Cons.IH[OF f(1) f(5) this] f(2,3,4) s show ?thesis by (simp add: finished_calls_def)
  qed
qed

lemma steps_to_exit_le: "steps_to_exit c \<le> 3"
  by (cases c) auto

text \<open>
  The steps of \<open>stop\<close> are not one atomic action. Steps of the thread that come after the
  stop flag is set and before the state is set find the state still playing.
\<close>

lemma stop_signal_race:
  assumes "running (r_pc l)" "3 \<le> length ns" "state p = PLAYING" "on_finished p"
  shows "finished_calls (fst (run_steps ns (stop_signal p, l))) = finished_calls p + 1"
  using stopping_steps[of "stop_signal p" l ns] assms steps_to_exit_le[of "r_pc l"]
  by (simp add: stop_signal_def finished_calls_def)







text \<open>
  With \<open>play()\<close> after \<open>stop()\<close> the old loop goes on, since \<open>play()\<close> clears the stop
  flag; it ends with the state playing and calls \<open>on_finished\<close>.
\<close>

lemma stop_then_play_old_loop:
  "finished_calls (fst (exec stop_play_trace (init_player\<lparr>on_finished := True\<rparr>, []))) = 1
   \<and> map r_pc (snd (exec stop_play_trace (init_player\<lparr>on_finished := True\<rparr>, [])))
       = [Done, Start]
   \<and> state (fst (exec stop_play_trace (init_player\<lparr>on_finished := True\<rparr>, []))) = STOPPED"
  by (simp add: stop_play_trace_def flatten_four_notes run_eval fl_eval finished_calls_def
      no_finished_in_silence)


text \<open>
  C6: after the first event a \<open>seek(2.5)\<close> resolves to index 3, the first event at or
  after 2.5 s, and the event at 3 s is sent; but the \<open>for\<close> loop then continues from its
  own iterator, and the event at 2 s is sent after the seek.
\<close>

theorem seek_replays_earlier_event:
  "effects (fst (exec seek_trace (init_player, []))) =
     [ThreadStart, Send [0x90, 60, 64]] @ all_sound_off @
     [Send [0x90, 63, 64], Send [0x90, 62, 64]]
   \<and> pos (fst (exec seek_trace (init_player, []))) = Fin 2
   \<and> find_index (messages (fst (exec seek_trace (init_player, [])))) (Fin (5 / 2)) = 3
   \<and> messages (fst (exec seek_trace (init_player, []))) =
       [(Fin 0, [0x90, 60, 64]), (Fin 1, [0x90, 61, 64]),
        (Fin 2, [0x90, 62, 64]), (Fin 3, [0x90, 63, 64])]"
  by (simp add: seek_trace_def flatten_four_notes run_eval fl_eval)

end
